theory Spec2Isabelle
  imports Main
begin

section \<open>Data model of \<open>video_server.py\<close>\<close>

text \<open>
  Python \<open>bytes\<close> are lists of 8-bit characters.  Integers that the code only uses as
  lengths (\<open>frame_size\<close>, \<open>len(frame_data)\<close>) are naturals; the one subtraction
  \<open>frame_size - len(frame_data)\<close> is evaluated under the guard
  \<open>len(frame_data) < frame_size\<close>, where truncated subtraction is exact.
\<close>

type_synonym bytes = "char list"

text \<open>
  The image library (\<open>cv2\<close>, \<open>numpy\<close>) is not part of the repository; its functions are
  parameters of the model.  \<open>imdecode\<close> stands for \<open>np.frombuffer\<close> followed by
  \<open>cv2.imdecode\<close>: it yields an image, yields \<open>None\<close>, or raises.
\<close>

datatype 'f decoded = Frame 'f | NoFrame | DecodeRaise

record 'f cv2 =
  imdecode :: "bytes \<Rightarrow> 'f decoded"
  imencode :: "nat list \<Rightarrow> 'f \<Rightarrow> bytes"
  zeros :: "nat \<times> nat \<times> nat \<Rightarrow> 'f"
  putText :: "'f \<Rightarrow> string \<Rightarrow> nat \<times> nat \<Rightarrow> nat \<Rightarrow> nat \<Rightarrow> nat \<times> nat \<times> nat \<Rightarrow> nat \<Rightarrow> 'f"

definition IMWRITE_JPEG_QUALITY :: nat where
  "IMWRITE_JPEG_QUALITY = 1"

definition FONT_HERSHEY_SIMPLEX :: nat where
  "FONT_HERSHEY_SIMPLEX = 0"

text \<open>The fields of \<open>VideoServer\<close> that the handlers read or write.\<close>

record 'f server =
  host :: string
  port :: int
  web_port :: int
  current_frame :: "'f option"
  running :: bool

definition VideoServer_init :: "string \<Rightarrow> int \<Rightarrow> int \<Rightarrow> 'f server" where
  "VideoServer_init h p wp =
     \<lparr>host = h, port = p, web_port = wp, current_frame = None, running = False\<rparr>"

section \<open>The broadcast side: \<open>/video_feed\<close> and \<open>/status\<close>\<close>

definition CRLF :: bytes where
  "CRLF = [CHR 0x0D, CHR 0x0A]"

definition part_header :: bytes where
  "part_header = ''--frame'' @ CRLF @ ''Content-Type: image/jpeg'' @ CRLF @ CRLF"

definition placeholder :: "'f cv2 \<Rightarrow> 'f" where
  "placeholder cv =
     putText cv (zeros cv (480, 640, 3)) ''No Video Stream'' (150, 240)
       FONT_HERSHEY_SIMPLEX 1 (255, 255, 255) 2"

text \<open>One iteration of the \<open>while True\<close> loop of \<open>generate\<close>: the chunk it yields.\<close>

definition generate_chunk :: "'f cv2 \<Rightarrow> 'f server \<Rightarrow> bytes" where
  "generate_chunk cv s =
     (case current_frame s of
        Some frame \<Rightarrow>
          part_header @ imencode cv [IMWRITE_JPEG_QUALITY, 85] frame @ CRLF
      | None \<Rightarrow>
          part_header @ imencode cv [] (placeholder cv) @ CRLF)"

text \<open>
  The generator never returns; what a viewer receives is determined by the server
  states its successive iterations observe.
\<close>

definition generate :: "'f cv2 \<Rightarrow> 'f server list \<Rightarrow> bytes list" where
  "generate cv observed = map (generate_chunk cv) observed"

record status_json =
  connected :: bool
  tcp_port :: int
  st_web_port :: int

definition status :: "'f server \<Rightarrow> status_json" where
  "status s =
     \<lparr>connected = (current_frame s \<noteq> None), tcp_port = port s, st_web_port = web_port s\<rparr>"

section \<open>The ingest side: sockets and framing\<close>

text \<open>
  A connected socket is the list of what is still to arrive on it: segments of data, or
  a transport error.  The empty list is a connection closed by the peer.
  \<open>recv n\<close> returns at most \<open>n\<close> bytes of the next segment, \<open>b''\<close> on a closed
  connection, and raises (\<open>None\<close>) on a transport error.
\<close>

datatype sock_event = Seg bytes | SockErr

type_synonym sock = "sock_event list"

fun recv :: "nat \<Rightarrow> sock \<Rightarrow> (bytes \<times> sock) option" where
  "recv n [] = Some ([], [])"
| "recv n (SockErr # rest) = None"
| "recv n (Seg d # rest) =
     (if d = [] then recv n rest
      else if length d \<le> n then Some (d, rest)
      else Some (take n d, Seg (drop n d) # rest))"

text \<open>\<open>struct.unpack('!I', data)[0]\<close>: \<open>struct.error\<close> unless \<open>data\<close> has four bytes.\<close>

fun unpack_u32 :: "bytes \<Rightarrow> nat option" where
  "unpack_u32 [b0, b1, b2, b3] =
     Some (of_char b0 * 2 ^ 24 + of_char b1 * 2 ^ 16 + of_char b2 * 2 ^ 8 + of_char b3)"
| "unpack_u32 _ = None"

text \<open>\<open>struct.pack('!I', n)\<close> of the producer: \<open>struct.error\<close> outside the 32-bit range.\<close>

definition pack_u32 :: "nat \<Rightarrow> bytes option" where
  "pack_u32 n =
     (if n < 2 ^ 32
      then Some [char_of (n div 2 ^ 24), char_of (n div 2 ^ 16), char_of (n div 2 ^ 8), char_of n]
      else None)"

text \<open>The inner loop of \<open>handle_client\<close> that accumulates \<open>frame_data\<close>.\<close>

function recv_frame_data :: "nat \<Rightarrow> bytes \<Rightarrow> sock \<Rightarrow> (bytes \<times> sock) option" where
  "recv_frame_data frame_size frame_data sk =
     (if length frame_data < frame_size then
        (case recv (min (frame_size - length frame_data) 4096) sk of
           None \<Rightarrow> None
         | Some (chunk, sk') \<Rightarrow>
             if chunk = [] then Some (frame_data, sk')
             else recv_frame_data frame_size (frame_data @ chunk) sk')
      else Some (frame_data, sk))"
  by pat_completeness auto
termination
  by (relation "measure (\<lambda>(frame_size, frame_data, sk). frame_size - length frame_data)")
    (auto simp: neq_Nil_conv)

declare recv_frame_data.simps [simp del]

text \<open>
  What \<open>handle_client\<close> prints, without the peer address.  The exceptions that can
  reach the outer \<open>except Exception\<close> are a socket error and \<open>struct.error\<close>.
\<close>

datatype exn = socket_error | struct_error

datatype 'f log_line =
    Received_frame 'f
  | Failed_to_decode
  | Frame_decoding_error
  | Incomplete_frame
  | Client_handling_error exn
  | Client_disconnected

definition emit :: "'f log_line \<Rightarrow> 'f server \<times> 'f log_line list \<times> exn option
    \<Rightarrow> 'f server \<times> 'f log_line list \<times> exn option" where
  "emit l r = (case r of (s, ls, e) \<Rightarrow> (s, l # ls, e))"

text \<open>
  The body of the \<open>try\<close> in \<open>handle_client\<close>: the \<open>while self.running\<close> loop.
  It returns the server state, the lines printed, and the exception that left the loop,
  if one did.
\<close>

function client_loop :: "'f cv2 \<Rightarrow> 'f server \<Rightarrow> sock
    \<Rightarrow> 'f server \<times> 'f log_line list \<times> exn option" where
  "client_loop cv s sk =
     (if \<not> running s then (s, [], None)
      else
        (case recv 4 sk of
           None \<Rightarrow> (s, [], Some socket_error)
         | Some (size_data, sk1) \<Rightarrow>
             if size_data = [] then (s, [], None)
             else
               (case unpack_u32 size_data of
                  None \<Rightarrow> (s, [], Some struct_error)
                | Some frame_size \<Rightarrow>
                    (case recv_frame_data frame_size [] sk1 of
                       None \<Rightarrow> (s, [], Some socket_error)
                     | Some (frame_data, sk2) \<Rightarrow>
                         if length frame_data = frame_size then
                           (case imdecode cv frame_data of
                              Frame frame \<Rightarrow>
                                emit (Received_frame frame)
                                  (client_loop cv (s\<lparr>current_frame := Some frame\<rparr>) sk2)
                            | NoFrame \<Rightarrow> emit Failed_to_decode (client_loop cv s sk2)
                            | DecodeRaise \<Rightarrow> emit Frame_decoding_error (client_loop cv s sk2))
                         else emit Incomplete_frame (client_loop cv s sk2)))))"
  by pat_completeness auto

text \<open>
  \<open>handle_client\<close>: the loop, the \<open>except\<close> clause and the \<open>finally\<close> clause, which
  closes the socket and sets \<open>current_frame\<close> to \<open>None\<close>.
\<close>

definition handle_client :: "'f cv2 \<Rightarrow> 'f server \<Rightarrow> sock \<Rightarrow> 'f server \<times> 'f log_line list" where
  "handle_client cv s sk =
     (case client_loop cv s sk of
        (s1, ls, e) \<Rightarrow>
          (s1\<lparr>current_frame := None\<rparr>,
           ls @ (case e of None \<Rightarrow> [] | Some x \<Rightarrow> [Client_handling_error x])
              @ [Client_disconnected]))"

text \<open>The producer's \<open>send_frame\<close>, after encoding: the bytes it puts on the wire.\<close>

definition send_frame :: "bytes \<Rightarrow> bytes option" where
  "send_frame frame_data =
     (case pack_u32 (length frame_data) of
        None \<Rightarrow> None
      | Some size_data \<Rightarrow> Some (size_data @ frame_data))"

section \<open>Describing what a connection delivers\<close>

text \<open>
  The bytes a socket delivers before it is closed or fails, and the socket that is left
  once the first \<open>n\<close> of them have been received.
\<close>

fun sock_bytes :: "sock \<Rightarrow> bytes" where
  "sock_bytes [] = []"
| "sock_bytes (SockErr # rest) = []"
| "sock_bytes (Seg d # rest) = d @ sock_bytes rest"

fun drop_bytes :: "nat \<Rightarrow> sock \<Rightarrow> sock" where
  "drop_bytes n [] = []"
| "drop_bytes n (SockErr # rest) = (SockErr # rest)"
| "drop_bytes n (Seg d # rest) =
     (if n = 0 then Seg d # rest
      else if length d \<le> n then drop_bytes (n - length d) rest
      else Seg (drop n d) # rest)"

text \<open>
  A small stand-in for the image library, for evaluating the model on concrete inputs:
  a buffer decodes exactly when it starts with the JPEG start-of-image marker
  \<open>FF D8\<close>, and an image is the list of bytes after the marker.
\<close>

definition sample_cv :: "bytes cv2" where
  "sample_cv =
     \<lparr>imdecode = (\<lambda>buf. if take 2 buf = [CHR 0xFF, CHR 0xD8] then Frame (drop 2 buf) else NoFrame),
      imencode = (\<lambda>params img. [CHR 0xFF, CHR 0xD8] @ img),
      zeros = (\<lambda>shape. []),
      putText = (\<lambda>img text org font scale colour thickness. img @ text)\<rparr>"

text \<open>
  The same library with a decoder that accepts every buffer: it stands for payloads that
  are valid images whatever their length.
\<close>

definition accept_all :: "bytes cv2" where
  "accept_all = sample_cv\<lparr>imdecode := Frame\<rparr>"

text \<open>The server of \<open>main\<close>, once \<open>start_tcp_server\<close> has set \<open>running\<close>.\<close>

definition started :: "'f server" where
  "started = (VideoServer_init ''0.0.0.0'' 8080 5000)\<lparr>running := True\<rparr>"

text \<open>
  The frame a run of the loop leaves in the store, read off what it printed: the frame of
  the last received-frame line, or the value held before when there is none.
\<close>

fun last_received :: "'f log_line list \<Rightarrow> 'f option \<Rightarrow> 'f option" where
  "last_received [] cf = cf"
| "last_received (Received_frame frame # ls) cf = last_received ls (Some frame)"
| "last_received (l # ls) cf = last_received ls cf"

section \<open>The lock around \<open>current_frame\<close>\<close>

text \<open>
  The steps each code path takes on \<open>frame_lock\<close> and \<open>current_frame\<close>, in program
  order.  \<open>with self.frame_lock:\<close> is an \<open>Acquire\<close> before its block and a
  \<open>Release\<close> after it.
\<close>

datatype 'f step = Acquire | Release | Load | Store 'f | Clear

text \<open>\<open>handle_client\<close>, on a decoded frame: \<open>with self.frame_lock: self.current_frame = frame\<close>.\<close>

definition write_steps :: "'f \<Rightarrow> 'f step list" where
  "write_steps frame = [Acquire, Store frame, Release]"

text \<open>\<open>handle_client\<close>, in \<open>finally\<close>: \<open>with self.frame_lock: self.current_frame = None\<close>.\<close>

definition clear_steps :: "'f step list" where
  "clear_steps = [Acquire, Clear, Release]"

text \<open>
  One iteration of \<open>generate\<close>: inside the lock it reads \<open>current_frame\<close> for the test
  and, when there is a frame, once more as the argument of \<open>imencode\<close>.
\<close>

definition generate_steps :: "bool \<Rightarrow> 'f step list" where
  "generate_steps live = Acquire # Load # (if live then [Load] else []) @ [Release]"

text \<open>\<open>status\<close>: \<open>self.current_frame is not None\<close>, with no lock taken.\<close>

definition status_steps :: "'f step list" where
  "status_steps = [Load]"

fun is_access :: "'f step \<Rightarrow> bool" where
  "is_access Acquire = False"
| "is_access Release = False"
| "is_access _ = True"

text \<open>
  A path is guarded when each of its accesses lies between an acquire and a release of
  its own, and it releases only what it holds.
\<close>

fun guarded :: "bool \<Rightarrow> 'f step list \<Rightarrow> bool" where
  "guarded held [] = True"
| "guarded held (Acquire # rest) = guarded True rest"
| "guarded held (Release # rest) = (held \<and> guarded False rest)"
| "guarded held (st # rest) = (held \<and> guarded held rest)"

text \<open>
  Threads interleaved by a schedule.  A thread that asks for a held lock stays blocked.
  The trace records each executed step with the owner of the lock at that moment.
\<close>

record 'f shared =
  owner :: "nat option"
  cell :: "'f option"

fun do_step :: "nat \<Rightarrow> 'f step \<Rightarrow> 'f shared \<Rightarrow> 'f shared option" where
  "do_step t Acquire sh = (if owner sh = None then Some (sh\<lparr>owner := Some t\<rparr>) else None)"
| "do_step t Release sh = Some (sh\<lparr>owner := None\<rparr>)"
| "do_step t Load sh = Some sh"
| "do_step t (Store frame) sh = Some (sh\<lparr>cell := Some frame\<rparr>)"
| "do_step t Clear sh = Some (sh\<lparr>cell := None\<rparr>)"

fun run :: "nat list \<Rightarrow> 'f step list list \<Rightarrow> 'f shared
    \<Rightarrow> (nat \<times> 'f step \<times> nat option) list" where
  "run [] threads sh = []"
| "run (t # schedule) threads sh =
     (if t < length threads then
        (case threads ! t of
           [] \<Rightarrow> run schedule threads sh
         | st # rest \<Rightarrow>
             (case do_step t st sh of
                None \<Rightarrow> run schedule threads sh
              | Some sh' \<Rightarrow> (t, st, owner sh) # run schedule (threads[t := rest]) sh'))
      else run schedule threads sh)"

section \<open>Termination of the ingest loop\<close>

fun sock_size :: "sock \<Rightarrow> nat" where
  "sock_size [] = 0"
| "sock_size (SockErr # rest) = Suc (sock_size rest)"
| "sock_size (Seg d # rest) = Suc (length d + sock_size rest)"

lemma recv_size_le: "recv n sk = Some (d, sk') \<Longrightarrow> sock_size sk' \<le> sock_size sk"
  by (induction n sk rule: recv.induct) (auto split: if_splits)

lemma recv_size_less:
  "recv n sk = Some (d, sk') \<Longrightarrow> d \<noteq> [] \<Longrightarrow> sock_size sk' < sock_size sk"
  by (induction n sk rule: recv.induct) (auto split: if_splits)

lemma recv_frame_data_size_le:
  "recv_frame_data n fd sk = Some (fd', sk') \<Longrightarrow> sock_size sk' \<le> sock_size sk"
proof (induction n fd sk rule: recv_frame_data.induct)
  case (1 frame_size frame_data sk)
  note unfold = recv_frame_data.simps [of frame_size frame_data sk]
  show ?case
  proof (cases "length frame_data < frame_size")
    case False
    with "1.prems" unfold show ?thesis by simp
  next
    case True
    show ?thesis
    proof (cases "recv (min (frame_size - length frame_data) 4096) sk")
      case None
      with True "1.prems" unfold show ?thesis by simp
    next
      case (Some r)
      obtain chunk sk1 where r: "r = (chunk, sk1)" by (cases r)
      have le: "sock_size sk1 \<le> sock_size sk"
        using Some r recv_size_le by blast
      show ?thesis
      proof (cases "chunk = []")
        case True
        with \<open>length frame_data < frame_size\<close> Some r "1.prems" le unfold show ?thesis by simp
      next
        case False
        with \<open>length frame_data < frame_size\<close> Some r "1.prems" unfold
        have "recv_frame_data frame_size (frame_data @ chunk) sk1 = Some (fd', sk')" by simp
        with "1.IH" [OF \<open>length frame_data < frame_size\<close> Some r [symmetric] False]
        have "sock_size sk' \<le> sock_size sk1" by simp
        with le show ?thesis by simp
      qed
    qed
  qed
qed

lemma loop_decreases:
  assumes "recv 4 sk = Some (size_data, sk1)" and "size_data \<noteq> []"
    and "recv_frame_data n [] sk1 = Some (fd, sk2)"
  shows "sock_size sk2 < sock_size sk"
proof -
  have "sock_size sk1 < sock_size sk" using assms(1,2) by (rule recv_size_less)
  moreover have "sock_size sk2 \<le> sock_size sk1" using assms(3) by (rule recv_frame_data_size_le)
  ultimately show ?thesis by simp
qed

termination client_loop
  by (relation "measure (\<lambda>(cv, s, sk). sock_size sk)") (auto intro: loop_decreases)

declare client_loop.simps [simp del]

section \<open>Receiving from a socket\<close>

lemma drop_bytes_0: "drop_bytes 0 sk = sk"
  by (induction "0::nat" sk rule: drop_bytes.induct) simp_all

lemma recv_length: "recv m sk = Some (c, sk') \<Longrightarrow> length c \<le> m"
  by (induction m sk rule: recv.induct) (auto split: if_splits)

lemma sock_bytes_recv: "recv m sk = Some (c, sk') \<Longrightarrow> sock_bytes sk = c @ sock_bytes sk'"
  by (induction m sk rule: recv.induct) (auto split: if_splits)

lemma recv_nonempty:
  "0 < m \<Longrightarrow> sock_bytes sk \<noteq> [] \<Longrightarrow> \<exists>c sk'. recv m sk = Some (c, sk') \<and> c \<noteq> []"
  by (induction m sk rule: recv.induct) auto

lemma drop_bytes_recv:
  "recv m sk = Some (c, sk') \<Longrightarrow> c \<noteq> [] \<Longrightarrow> length c \<le> k \<Longrightarrow>
     drop_bytes k sk = drop_bytes (k - length c) sk'"
proof (induction m sk rule: recv.induct)
  case (1 n)
  then show ?case by simp
next
  case (2 n rest)
  then show ?case by simp
next
  case (3 n d rest)
  from "3.prems" have k: "0 < k" by (cases c) auto
  show ?case
  proof (cases "d = []")
    case True
    with 3 k show ?thesis by simp
  next
    case False
    show ?thesis
    proof (cases "length d \<le> n")
      case True
      with False "3.prems" k show ?thesis by auto
    next
      case long: False
      with False "3.prems" have c: "c = take n d" and sk': "sk' = Seg (drop n d) # rest"
        by auto
      from c long have len: "length c = n" by simp
      show ?thesis
      proof (cases "k = n")
        case True
        with long k show ?thesis by (simp add: sk' len)
      next
        case False
        with "3.prems"(3) len have "n < k" by simp
        with long k show ?thesis by (auto simp: sk' len)
      qed
    qed
  qed
qed



lemma recv_frame_data_complete:
  "length fd \<le> n \<Longrightarrow> n - length fd \<le> length (sock_bytes sk) \<Longrightarrow>
     recv_frame_data n fd sk
       = Some (fd @ take (n - length fd) (sock_bytes sk), drop_bytes (n - length fd) sk)"
proof (induction n fd sk rule: recv_frame_data.induct)
  case (1 frame_size frame_data sk)
  note unfold = recv_frame_data.simps [of frame_size frame_data sk]
  show ?case
  proof (cases "length frame_data < frame_size")
    case False
    with "1.prems" unfold show ?thesis by (simp add: drop_bytes_0)
  next
    case True
    define k where "k = frame_size - length frame_data"
    have k: "0 < k" "k \<le> length (sock_bytes sk)" using True "1.prems" by (simp_all add: k_def)
    then have "sock_bytes sk \<noteq> []" by auto
    with recv_nonempty [of "min k 4096" sk] k obtain c sk' where
      r: "recv (min k 4096) sk = Some (c, sk')" and c: "c \<noteq> []" by auto
    have lc: "length c \<le> k" using recv_length [OF r] by simp
    have bytes: "sock_bytes sk = c @ sock_bytes sk'" using r by (rule sock_bytes_recv)
    have rest: "drop_bytes k sk = drop_bytes (k - length c) sk'"
      using r c lc by (rule drop_bytes_recv)
    have r': "recv (min (frame_size - length frame_data) 4096) sk = Some (c, sk')"
      using r by (simp add: k_def)
    have "recv_frame_data frame_size (frame_data @ c) sk'
        = Some ((frame_data @ c) @ take (frame_size - length (frame_data @ c)) (sock_bytes sk'),
            drop_bytes (frame_size - length (frame_data @ c)) sk')"
    proof (rule "1.IH" [OF True r' refl c])
      show "length (frame_data @ c) \<le> frame_size" using lc True by (simp add: k_def)
      show "frame_size - length (frame_data @ c) \<le> length (sock_bytes sk')"
        using k(2) bytes by (simp add: k_def)
    qed
    moreover have "frame_size - length (frame_data @ c) = k - length c" by (simp add: k_def)
    moreover have "take k (sock_bytes sk) = c @ take (k - length c) (sock_bytes sk')"
      using bytes lc by simp
    ultimately show ?thesis
      using True r c rest unfold by (simp add: k_def)
  qed
qed


section \<open>The length field\<close>

lemma unpack_pack_arith:
  fixes n :: nat
  assumes "n < 4294967296"
  shows "(n div 16777216) mod 256 * 16777216 + (n div 65536) mod 256 * 65536
       + (n div 256) mod 256 * 256 + n mod 256 = n"
proof -
  define a where "a = n div 256"
  define b where "b = a div 256"
  define c where "c = b div 256"
  have b: "n div 65536 = b"
    using div_mult2_eq [of n 256 256] by (simp add: a_def b_def)
  have c: "n div 16777216 = c"
    using div_mult2_eq [of n 65536 256] b by (simp add: c_def)
  have "c < 256" using assms less_mult_imp_div_less [of n 256 16777216] c by simp
  then have c256: "c mod 256 = c" by simp
  have n: "n = a * 256 + n mod 256" by (simp add: a_def)
  have a: "a = b * 256 + a mod 256" by (simp add: b_def)
  have b': "b = c * 256 + b mod 256" by (simp add: c_def)
  have "c * 16777216 + b mod 256 * 65536 + a mod 256 * 256 + n mod 256
      = ((c * 256 + b mod 256) * 256 + a mod 256) * 256 + n mod 256"
    by (simp add: algebra_simps)
  also have "\<dots> = (b * 256 + a mod 256) * 256 + n mod 256" using b' by simp
  also have "\<dots> = a * 256 + n mod 256" using a by simp
  also have "\<dots> = n" using n by simp
  finally show ?thesis by (simp add: b c c256 a_def)
qed

lemma top_byte_small:
  fixes n :: nat
  assumes "n < 4294967296"
  shows "n div 16777216 mod 256 = n div 16777216"
  using assms less_mult_imp_div_less [of n 256 16777216] by simp

lemma unpack_pack:
  assumes "pack_u32 n = Some size_data"
  shows "unpack_u32 size_data = Some n"
proof -
  from assms have lt: "n < 4294967296" and
    sd: "size_data = [char_of (n div 16777216), char_of (n div 65536), char_of (n div 256), char_of n]"
    by (auto simp: pack_u32_def split: if_splits)
  show ?thesis
    using unpack_pack_arith [OF lt] top_byte_small [OF lt] by (simp add: sd of_char_of)
qed

section \<open>One iteration of the ingest loop\<close>

lemma unpack_u32_Some_length: "unpack_u32 size_data = Some L \<Longrightarrow> length size_data = 4"
  by (induction size_data rule: unpack_u32.induct) simp_all

lemma client_loop_message:
  assumes "running s" and "recv 4 sk = Some (size_data, sk1)"
    and "unpack_u32 size_data = Some L" and "L \<le> length (sock_bytes sk1)"
  shows "client_loop cv s sk =
     (case imdecode cv (take L (sock_bytes sk1)) of
        Frame frame \<Rightarrow>
          emit (Received_frame frame)
            (client_loop cv (s\<lparr>current_frame := Some frame\<rparr>) (drop_bytes L sk1))
      | NoFrame \<Rightarrow> emit Failed_to_decode (client_loop cv s (drop_bytes L sk1))
      | DecodeRaise \<Rightarrow> emit Frame_decoding_error (client_loop cv s (drop_bytes L sk1)))"
proof -
  have ne: "size_data \<noteq> []" using unpack_u32_Some_length [OF assms(3)] by auto
  have fd: "recv_frame_data L [] sk1 = Some (take L (sock_bytes sk1), drop_bytes L sk1)"
    using recv_frame_data_complete [of "[]" L sk1] assms(4) by simp
  have len: "length (take L (sock_bytes sk1)) = L" using assms(4) by simp
  show ?thesis
    by (subst client_loop.simps) (simp add: assms(1,2,3) ne fd min_absorb2 [OF assms(4)])
qed

lemma client_loop_closed: "client_loop cv s [] = (s, [], None)"
  by (subst client_loop.simps) simp


lemma recv_frame_data_bounded:
  "recv_frame_data n fd sk = Some (fd', sk') \<Longrightarrow> length fd \<le> n \<Longrightarrow> length fd' \<le> n"
proof (induction n fd sk rule: recv_frame_data.induct)
  case (1 frame_size frame_data sk)
  note unfold = recv_frame_data.simps [of frame_size frame_data sk]
  show ?case
  proof (cases "length frame_data < frame_size")
    case False
    with "1.prems" unfold show ?thesis by simp
  next
    case True
    show ?thesis
    proof (cases "recv (min (frame_size - length frame_data) 4096) sk")
      case None
      with True "1.prems" unfold show ?thesis by simp
    next
      case (Some r)
      obtain chunk sk1 where r: "r = (chunk, sk1)" by (cases r)
      have "length chunk \<le> min (frame_size - length frame_data) 4096"
        using Some r by (auto dest: recv_length)
      then have lc: "length chunk \<le> frame_size - length frame_data" by simp
      show ?thesis
      proof (cases "chunk = []")
        case True
        with \<open>length frame_data < frame_size\<close> Some r "1.prems" unfold show ?thesis by simp
      next
        case False
        with \<open>length frame_data < frame_size\<close> Some r "1.prems" unfold
        have "recv_frame_data frame_size (frame_data @ chunk) sk1 = Some (fd', sk')" by simp
        moreover have "length (frame_data @ chunk) \<le> frame_size" using lc True by simp
        ultimately show ?thesis
          using "1.IH" [OF \<open>length frame_data < frame_size\<close> Some r [symmetric] False] by simp
      qed
    qed
  qed
qed

lemma of_char_less_256: "of_char (c::char) < (256::nat)"
  by (cases c) simp

lemma unpack_u32_bound: "unpack_u32 size_data = Some L \<Longrightarrow> L < 4294967296"
proof (induction size_data rule: unpack_u32.induct)
  case (1 b0 b1 b2 b3)
  have "of_char b0 < (256::nat)" "of_char b1 < (256::nat)" "of_char b2 < (256::nat)"
    "of_char b3 < (256::nat)" by (rule of_char_less_256)+
  moreover from 1 have "L = of_char b0 * 16777216 + of_char b1 * 65536 + of_char b2 * 256
      + of_char b3" by simp
  ultimately show ?case by linarith
qed simp_all

section \<open>The broadcast side\<close>

lemma generate_chunk_empty:
  "current_frame s = None \<Longrightarrow>
     generate_chunk cv s = part_header @ imencode cv [] (placeholder cv) @ CRLF"
  by (simp add: generate_chunk_def)

lemma generate_chunk_form: "\<exists>body. generate_chunk cv s = part_header @ body @ CRLF"
  by (cases "current_frame s") (simp_all add: generate_chunk_def)

lemma part_header_literal:
  "part_header =
     ''--frame'' @ [CHR 0x0D, CHR 0x0A] @ ''Content-Type: image/jpeg''
       @ [CHR 0x0D, CHR 0x0A, CHR 0x0D, CHR 0x0A]"
  by (simp add: part_header_def CRLF_def)

text \<open>
  C8.  While the store is empty, every chunk of \<open>/video_feed\<close> is the placeholder: the
  encoding of a 480 x 640 x 3 black image with the text \<open>No Video Stream\<close> drawn on it.
  Every chunk, placeholder or live, is
  \<open>--frame\r\nContent-Type: image/jpeg\r\n\r\n\<close>, then bytes, then \<open>\r\n\<close>.
\<close>

theorem video_feed_placeholder:
  fixes cv :: "'f cv2"
  assumes "\<forall>s \<in> set observed. current_frame s = None"
  shows "generate cv observed =
           replicate (length observed)
             (''--frame'' @ [CHR 0x0D, CHR 0x0A] @ ''Content-Type: image/jpeg''
                @ [CHR 0x0D, CHR 0x0A, CHR 0x0D, CHR 0x0A]
                @ imencode cv []
                    (putText cv (zeros cv (480, 640, 3)) ''No Video Stream'' (150, 240) 0 1
                       (255, 255, 255) 2)
                @ [CHR 0x0D, CHR 0x0A])
         \<and> (\<forall>chunk \<in> set (generate cv anything).
               \<exists>body. chunk =
                 ''--frame'' @ [CHR 0x0D, CHR 0x0A] @ ''Content-Type: image/jpeg''
                   @ [CHR 0x0D, CHR 0x0A, CHR 0x0D, CHR 0x0A] @ body @ [CHR 0x0D, CHR 0x0A])"
proof (rule conjI)
  have "map (generate_chunk cv) observed =
          replicate (length observed) (part_header @ imencode cv [] (placeholder cv) @ CRLF)"
    using assms by (induction observed) (simp_all add: generate_chunk_empty)
  then show "generate cv observed =
           replicate (length observed)
             (''--frame'' @ [CHR 0x0D, CHR 0x0A] @ ''Content-Type: image/jpeg''
                @ [CHR 0x0D, CHR 0x0A, CHR 0x0D, CHR 0x0A]
                @ imencode cv []
                    (putText cv (zeros cv (480, 640, 3)) ''No Video Stream'' (150, 240) 0 1
                       (255, 255, 255) 2)
                @ [CHR 0x0D, CHR 0x0A])"
    by (simp add: generate_def part_header_literal placeholder_def CRLF_def
        FONT_HERSHEY_SIMPLEX_def)
next
  show "\<forall>chunk \<in> set (generate cv anything).
           \<exists>body. chunk =
             ''--frame'' @ [CHR 0x0D, CHR 0x0A] @ ''Content-Type: image/jpeg''
               @ [CHR 0x0D, CHR 0x0A, CHR 0x0D, CHR 0x0A] @ body @ [CHR 0x0D, CHR 0x0A]"
  proof
    fix chunk assume "chunk \<in> set (generate cv anything)"
    then obtain s where "chunk = generate_chunk cv s" by (auto simp: generate_def)
    with generate_chunk_form [of cv s] show "\<exists>body. chunk =
             ''--frame'' @ [CHR 0x0D, CHR 0x0A] @ ''Content-Type: image/jpeg''
               @ [CHR 0x0D, CHR 0x0A, CHR 0x0D, CHR 0x0A] @ body @ [CHR 0x0D, CHR 0x0A]"
      by (simp add: part_header_literal CRLF_def)
  qed
qed

theorem video_feed_placeholder_witness:
  "current_frame (started :: bytes server) = None
   \<and> generate sample_cv [started, started] =
       [''--frame'' @ [CHR 0x0D, CHR 0x0A] @ ''Content-Type: image/jpeg''
          @ [CHR 0x0D, CHR 0x0A, CHR 0x0D, CHR 0x0A]
          @ [CHR 0xFF, CHR 0xD8] @ ''No Video Stream'' @ [CHR 0x0D, CHR 0x0A],
        ''--frame'' @ [CHR 0x0D, CHR 0x0A] @ ''Content-Type: image/jpeg''
          @ [CHR 0x0D, CHR 0x0A, CHR 0x0D, CHR 0x0A]
          @ [CHR 0xFF, CHR 0xD8] @ ''No Video Stream'' @ [CHR 0x0D, CHR 0x0A]]
   \<and> (\<exists>body. generate_chunk sample_cv (started\<lparr>current_frame := Some ''live''\<rparr>) =
           ''--frame'' @ [CHR 0x0D, CHR 0x0A] @ ''Content-Type: image/jpeg''
             @ [CHR 0x0D, CHR 0x0A, CHR 0x0D, CHR 0x0A] @ body @ [CHR 0x0D, CHR 0x0A])"
proof -
  have h: "\<forall>s \<in> set [started :: bytes server, started]. current_frame s = None"
    by (simp add: started_def VideoServer_init_def)
  show ?thesis
    using h video_feed_placeholder [OF h, where cv = sample_cv
        and anything = "[started\<lparr>current_frame := Some ''live''\<rparr>]"]
    by (simp add: sample_cv_def generate_def)
qed

section \<open>What the \<open>finally\<close> clause of \<open>handle_client\<close> does\<close>

lemma handle_client_clears: "current_frame (fst (handle_client cv s sk)) = None"
  by (simp add: handle_client_def split: prod.splits)

text \<open>
  C10.  Whatever the connection delivered and however the loop ended, \<open>handle_client\<close>
  leaves \<open>current_frame\<close> at \<open>None\<close>.  It does so for a connection that delivers nothing
  while the store holds a frame written by someone else: the frame is discarded although
  this handler printed no received frame.
\<close>

theorem handle_client_clears_unconditionally:
  "current_frame (fst (handle_client cv s sk)) = None
   \<and> handle_client cv (s\<lparr>current_frame := Some other\<rparr>) []
       = (s\<lparr>current_frame := None\<rparr>, [Client_disconnected])"
  by (simp add: handle_client_clears) (simp add: handle_client_def client_loop.simps)

section \<open>Errors on an ingest connection\<close>




text \<open>
  C6.  A complete payload that the decoder rejects (by returning \<open>None\<close> or by
  raising) costs one warning line: the loop carries on with the rest of the connection
  and with the server state it had before the message.
\<close>

theorem decode_failure_nonfatal:
  assumes "running s" and "recv 4 sk = Some (size_data, sk1)"
    and "unpack_u32 size_data = Some (length payload)"
    and "sock_bytes sk1 = payload @ later"
    and "imdecode cv payload = NoFrame \<or> imdecode cv payload = DecodeRaise"
  shows "\<exists>warning. (warning = Failed_to_decode \<or> warning = Frame_decoding_error)
          \<and> client_loop cv s sk
              = emit warning (client_loop cv s (drop_bytes (length payload) sk1))"
proof -
  have "length payload \<le> length (sock_bytes sk1)" using assms(4) by simp
  from client_loop_message [OF assms(1,2,3) this, of cv] assms(4,5)
  show ?thesis by auto
qed


theorem decode_failure_nonfatal_witness:
  "running (started :: bytes server)
   \<and> recv 4 [Seg ([CHR 0x00, CHR 0x00, CHR 0x00, CHR 0x02] @ ''ab''),
               Seg ([CHR 0x00, CHR 0x00, CHR 0x00, CHR 0x03, CHR 0xFF, CHR 0xD8] @ ''x'')]
       = Some ([CHR 0x00, CHR 0x00, CHR 0x00, CHR 0x02],
               [Seg ''ab'',
                Seg ([CHR 0x00, CHR 0x00, CHR 0x00, CHR 0x03, CHR 0xFF, CHR 0xD8] @ ''x'')])
   \<and> unpack_u32 [CHR 0x00, CHR 0x00, CHR 0x00, CHR 0x02] = Some (length ''ab'')
   \<and> sock_bytes [Seg ''ab'',
         Seg ([CHR 0x00, CHR 0x00, CHR 0x00, CHR 0x03, CHR 0xFF, CHR 0xD8] @ ''x'')]
       = ''ab'' @ ([CHR 0x00, CHR 0x00, CHR 0x00, CHR 0x03, CHR 0xFF, CHR 0xD8] @ ''x'')
   \<and> (imdecode sample_cv ''ab'' = NoFrame \<or> imdecode sample_cv ''ab'' = DecodeRaise)
   \<and> (\<exists>warning. (warning = Failed_to_decode \<or> warning = Frame_decoding_error)
          \<and> client_loop sample_cv started
               [Seg ([CHR 0x00, CHR 0x00, CHR 0x00, CHR 0x02] @ ''ab''),
                Seg ([CHR 0x00, CHR 0x00, CHR 0x00, CHR 0x03, CHR 0xFF, CHR 0xD8] @ ''x'')]
              = emit warning
                  (started\<lparr>current_frame := Some ''x''\<rparr>, [Received_frame ''x''], None))"
proof -
  let ?m2 = "Seg ([CHR 0x00, CHR 0x00, CHR 0x00, CHR 0x03, CHR 0xFF, CHR 0xD8] @ ''x'')"
  have 1: "running (started :: bytes server)" by (simp add: started_def)
  have 2: "recv 4 [Seg ([CHR 0x00, CHR 0x00, CHR 0x00, CHR 0x02] @ ''ab''), ?m2]
       = Some ([CHR 0x00, CHR 0x00, CHR 0x00, CHR 0x02], [Seg ''ab'', ?m2])" by simp
  have 3: "unpack_u32 [CHR 0x00, CHR 0x00, CHR 0x00, CHR 0x02] = Some (length ''ab'')" by simp
  have 4: "sock_bytes [Seg ''ab'', ?m2]
       = ''ab'' @ ([CHR 0x00, CHR 0x00, CHR 0x00, CHR 0x03, CHR 0xFF, CHR 0xD8] @ ''x'')"
    by simp
  have 5: "imdecode sample_cv ''ab'' = NoFrame \<or> imdecode sample_cv ''ab'' = DecodeRaise"
    by (simp add: sample_cv_def)
  have rest: "client_loop sample_cv started (drop_bytes (length ''ab'') [Seg ''ab'', ?m2])
      = (started\<lparr>current_frame := Some ''x''\<rparr>, [Received_frame ''x''], None)"
    by (simp add: client_loop.simps recv_frame_data.simps started_def sample_cv_def emit_def)
  show ?thesis
    using 1 2 3 4 5 decode_failure_nonfatal [OF 1 2 3 4 5] unfolding rest
    by simp
qed

text \<open>
  C5.  The length field is read by a single \<open>recv(4)\<close>.  A connection closed before
  any byte ends the loop cleanly.  A connection that delivers two bytes and closes, or
  that delivers the length in two segments, makes \<open>struct.unpack\<close> raise: the handler
  reports a client handling error.  The last conjunct is the same message in one segment.
\<close>

theorem short_length_read:
  "handle_client sample_cv started [Seg [CHR 0x00, CHR 0x00]]
     = (started, [Client_handling_error struct_error, Client_disconnected])
   \<and> handle_client sample_cv started []
     = (started, [Client_disconnected])
   \<and> handle_client sample_cv started
       [Seg [CHR 0x00, CHR 0x00], Seg ([CHR 0x00, CHR 0x03, CHR 0xFF, CHR 0xD8] @ ''x'')]
     = (started, [Client_handling_error struct_error, Client_disconnected])
   \<and> handle_client sample_cv started
       [Seg ([CHR 0x00, CHR 0x00, CHR 0x00, CHR 0x03, CHR 0xFF, CHR 0xD8] @ ''x'')]
     = (started, [Received_frame ''x'', Client_disconnected])"
  by (simp add: handle_client_def client_loop.simps recv_frame_data.simps started_def
      sample_cv_def emit_def VideoServer_init_def)

text \<open>
  C7.  Once a handler that printed a received frame has returned, the store is empty:
  \<open>/status\<close> answers \<open>connected = False\<close> and \<open>/video_feed\<close> yields the placeholder.
\<close>

theorem disconnect_clears_state:
  assumes "handle_client cv s sk = (s', ls)" and "Received_frame f \<in> set ls"
  shows "current_frame s' = None \<and> connected (status s') = False
       \<and> generate_chunk cv s' = part_header @ imencode cv [] (placeholder cv) @ CRLF"
proof -
  have "current_frame s' = None" using handle_client_clears [of cv s sk] assms(1) by simp
  then show ?thesis by (simp add: status_def generate_chunk_empty)
qed

theorem disconnect_clears_state_witness:
  "handle_client sample_cv started
       [Seg ([CHR 0x00, CHR 0x00, CHR 0x00, CHR 0x03, CHR 0xFF, CHR 0xD8] @ ''x''), SockErr]
     = (started, [Received_frame ''x'', Client_handling_error socket_error, Client_disconnected])
   \<and> Received_frame ''x''
       \<in> set [Received_frame ''x'', Client_handling_error socket_error, Client_disconnected]
   \<and> current_frame (started :: bytes server) = None
   \<and> connected (status (started :: bytes server)) = False
   \<and> generate_chunk sample_cv started
       = part_header @ imencode sample_cv [] (placeholder sample_cv) @ CRLF"
proof -
  have 1: "handle_client sample_cv started
       [Seg ([CHR 0x00, CHR 0x00, CHR 0x00, CHR 0x03, CHR 0xFF, CHR 0xD8] @ ''x''), SockErr]
     = (started, [Received_frame ''x'', Client_handling_error socket_error, Client_disconnected])"
    by (simp add: handle_client_def client_loop.simps recv_frame_data.simps started_def
        sample_cv_def emit_def VideoServer_init_def)
  have 2: "Received_frame ''x''
       \<in> set [Received_frame ''x'', Client_handling_error socket_error, Client_disconnected]"
    by simp
  show ?thesis using 1 2 disconnect_clears_state [OF 1 2] by simp
qed

section \<open>A framed message, end to end\<close>

lemma pack_u32_length: "pack_u32 n = Some size_data \<Longrightarrow> length size_data = 4"
  by (auto simp: pack_u32_def split: if_splits)

text \<open>
  C1, as stated, fails.  The producer frames the ten bytes \<open>0123456789\<close>; they arrive
  whole, but they are not an image, so nothing is written: the store stays empty and the
  next chunk of \<open>/video_feed\<close> is the placeholder, not the payload.
\<close>

theorem roundtrip_counterexample:
  "send_frame ''0123456789''
     = Some ([CHR 0x00, CHR 0x00, CHR 0x00, CHR 0x0A] @ ''0123456789'')
   \<and> client_loop sample_cv started
         [Seg ([CHR 0x00, CHR 0x00, CHR 0x00, CHR 0x0A] @ ''0123456789'')]
       = (started, [Failed_to_decode], None)
   \<and> current_frame (fst (client_loop sample_cv started
         [Seg ([CHR 0x00, CHR 0x00, CHR 0x00, CHR 0x0A] @ ''0123456789'')]))
       \<noteq> Some ''0123456789''
   \<and> generate_chunk sample_cv (fst (client_loop sample_cv started
         [Seg ([CHR 0x00, CHR 0x00, CHR 0x00, CHR 0x0A] @ ''0123456789'')]))
       \<noteq> part_header @ ''0123456789'' @ CRLF"
proof -
  have sf: "send_frame ''0123456789''
     = Some ([CHR 0x00, CHR 0x00, CHR 0x00, CHR 0x0A] @ ''0123456789'')"
    by (simp add: send_frame_def pack_u32_def char_of_eq_iff take_bit_eq_mod)
  have cl: "client_loop sample_cv started
         [Seg ([CHR 0x00, CHR 0x00, CHR 0x00, CHR 0x0A] @ ''0123456789'')]
       = (started, [Failed_to_decode], None)"
    by (simp add: client_loop.simps recv_frame_data.simps started_def sample_cv_def emit_def)
  have gc: "generate_chunk sample_cv (started :: bytes server)
       \<noteq> part_header @ ''0123456789'' @ CRLF"
    by (simp add: generate_chunk_def started_def VideoServer_init_def sample_cv_def
        placeholder_def CRLF_def)
  show ?thesis
    unfolding cl using sf gc by (simp add: started_def VideoServer_init_def)
qed

text \<open>
  C1, amended.  The store holds decoded images, not payloads.  When the length field
  arrives in one \<open>recv\<close>, the payload arrives in full (in any segmentation) and the
  decoder accepts it, the loop continues with the decoded image as \<open>current_frame\<close>;
  in that state \<open>/status\<close> reports a connection and the chunk of \<open>/video_feed\<close> carries
  the JPEG encoding, at quality 85, of the decoded image.
\<close>

theorem framed_message_stored:
  assumes "running s" and "pack_u32 (length payload) = Some size_data"
    and "recv 4 sk = Some (size_data, sk1)"
    and "sock_bytes sk1 = payload @ later"
    and "imdecode cv payload = Frame frame"
  shows "client_loop cv s sk
           = emit (Received_frame frame)
               (client_loop cv (s\<lparr>current_frame := Some frame\<rparr>)
                  (drop_bytes (length payload) sk1))
       \<and> connected (status (s\<lparr>current_frame := Some frame\<rparr>)) = True
       \<and> generate_chunk cv (s\<lparr>current_frame := Some frame\<rparr>)
           = ''--frame'' @ [CHR 0x0D, CHR 0x0A] @ ''Content-Type: image/jpeg''
               @ [CHR 0x0D, CHR 0x0A, CHR 0x0D, CHR 0x0A]
               @ imencode cv [1, 85] frame @ [CHR 0x0D, CHR 0x0A]"
proof -
  have u: "unpack_u32 size_data = Some (length payload)" using assms(2) by (rule unpack_pack)
  have "length payload \<le> length (sock_bytes sk1)" using assms(4) by simp
  from client_loop_message [OF assms(1,3) u this, of cv] assms(4,5)
  have "client_loop cv s sk
           = emit (Received_frame frame)
               (client_loop cv (s\<lparr>current_frame := Some frame\<rparr>)
                  (drop_bytes (length payload) sk1))" by simp
  then show ?thesis
    by (simp add: status_def generate_chunk_def part_header_literal CRLF_def
        IMWRITE_JPEG_QUALITY_def)
qed

theorem framed_message_stored_witness:
  "running (started :: bytes server)
   \<and> pack_u32 (length ([CHR 0xFF, CHR 0xD8] @ ''x'')) = Some [CHR 0x00, CHR 0x00, CHR 0x00, CHR 0x03]
   \<and> recv 4 [Seg [CHR 0x00, CHR 0x00, CHR 0x00, CHR 0x03, CHR 0xFF], Seg [CHR 0xD8, CHR ''x'']]
       = Some ([CHR 0x00, CHR 0x00, CHR 0x00, CHR 0x03], [Seg [CHR 0xFF], Seg [CHR 0xD8, CHR ''x'']])
   \<and> sock_bytes [Seg [CHR 0xFF], Seg [CHR 0xD8, CHR ''x'']] = ([CHR 0xFF, CHR 0xD8] @ ''x'') @ []
   \<and> imdecode sample_cv ([CHR 0xFF, CHR 0xD8] @ ''x'') = Frame ''x''
   \<and> client_loop sample_cv started
         [Seg [CHR 0x00, CHR 0x00, CHR 0x00, CHR 0x03, CHR 0xFF], Seg [CHR 0xD8, CHR ''x'']]
       = (started\<lparr>current_frame := Some ''x''\<rparr>, [Received_frame ''x''], None)
   \<and> connected (status (started\<lparr>current_frame := Some ''x''\<rparr>)) = True
   \<and> generate_chunk sample_cv (started\<lparr>current_frame := Some ''x''\<rparr>)
       = ''--frame'' @ [CHR 0x0D, CHR 0x0A] @ ''Content-Type: image/jpeg''
           @ [CHR 0x0D, CHR 0x0A, CHR 0x0D, CHR 0x0A]
           @ [CHR 0xFF, CHR 0xD8] @ ''x'' @ [CHR 0x0D, CHR 0x0A]"
proof -
  have 1: "running (started :: bytes server)" by (simp add: started_def)
  have 2: "pack_u32 (length ([CHR 0xFF, CHR 0xD8] @ ''x''))
      = Some [CHR 0x00, CHR 0x00, CHR 0x00, CHR 0x03]"
    by (simp add: pack_u32_def char_of_eq_iff take_bit_eq_mod)
  have 3: "recv 4 [Seg [CHR 0x00, CHR 0x00, CHR 0x00, CHR 0x03, CHR 0xFF], Seg [CHR 0xD8, CHR ''x'']]
       = Some ([CHR 0x00, CHR 0x00, CHR 0x00, CHR 0x03], [Seg [CHR 0xFF], Seg [CHR 0xD8, CHR ''x'']])"
    by simp
  have 4: "sock_bytes [Seg [CHR 0xFF], Seg [CHR 0xD8, CHR ''x'']]
      = ([CHR 0xFF, CHR 0xD8] @ ''x'') @ []" by simp
  have 5: "imdecode sample_cv ([CHR 0xFF, CHR 0xD8] @ ''x'') = Frame ''x''"
    by (simp add: sample_cv_def)
  have rest: "drop_bytes (length ([CHR 0xFF, CHR 0xD8] @ ''x''))
      [Seg [CHR 0xFF], Seg [CHR 0xD8, CHR ''x'']] = []" by simp
  show ?thesis
    using 1 2 3 4 5 framed_message_stored [OF 1 2 3 4 5] unfolding rest client_loop_closed
    by (simp add: emit_def sample_cv_def)
qed

section \<open>The length field is not limited\<close>

lemma single_message_accepted:
  assumes "running s" and "pack_u32 (length payload) = Some size_data" and "payload \<noteq> []"
  shows "handle_client accept_all s [Seg (size_data @ payload)]
           = (s\<lparr>current_frame := None\<rparr>, [Received_frame payload, Client_disconnected])"
proof -
  have l4: "length size_data = 4" using assms(2) by (rule pack_u32_length)
  have u: "unpack_u32 size_data = Some (length payload)" using assms(2) by (rule unpack_pack)
  have r: "recv 4 [Seg (size_data @ payload)] = Some (size_data, [Seg payload])"
    using l4 assms(3) by simp
  have len: "length payload \<le> length (sock_bytes [Seg payload])" by simp
  have d: "drop_bytes (length payload) [Seg payload] = []" using assms(3) by simp
  note m = client_loop_message [OF assms(1) r u len, of accept_all]
  have "client_loop accept_all s [Seg (size_data @ payload)]
      = (s\<lparr>current_frame := Some payload\<rparr>, [Received_frame payload], None)"
    unfolding m d client_loop_closed by (simp add: emit_def accept_all_def)
  then show ?thesis by (simp add: handle_client_def)
qed

text \<open>
  C3, as stated, fails.  No maximum \<open>M\<close> below the range of the length field is
  enforced: for every such \<open>M\<close> a message longer than \<open>M\<close> is received, decoded and
  written like any other.
\<close>

theorem length_limit_counterexample:
  "\<not> (\<exists>M<2 ^ 32 - 1. \<forall>(cv :: bytes cv2) payload size_data.
         M < length payload \<and> pack_u32 (length payload) = Some size_data \<longrightarrow>
         (\<forall>frame. Received_frame frame
            \<notin> set (snd (handle_client cv started [Seg (size_data @ payload)]))))"
proof
  assume "\<exists>M<2 ^ 32 - 1. \<forall>(cv :: bytes cv2) payload size_data.
         M < length payload \<and> pack_u32 (length payload) = Some size_data \<longrightarrow>
         (\<forall>frame. Received_frame frame
            \<notin> set (snd (handle_client cv started [Seg (size_data @ payload)])))"
  then obtain M :: nat where M: "M < 2 ^ 32 - 1" and
    rej: "\<And>(cv :: bytes cv2) payload size_data.
         M < length payload \<Longrightarrow> pack_u32 (length payload) = Some size_data \<Longrightarrow>
         Received_frame payload
            \<notin> set (snd (handle_client cv started [Seg (size_data @ payload)]))"
    by blast
  define payload where "payload = replicate (Suc M) (CHR 0x00)"
  have len: "length payload = Suc M" by (simp add: payload_def)
  have "Suc M < 2 ^ 32" using M by simp
  then obtain size_data where p: "pack_u32 (length payload) = Some size_data"
    by (simp add: pack_u32_def len)
  have ne: "payload \<noteq> []" by (simp add: payload_def)
  have run: "running (started :: bytes server)" by (simp add: started_def)
  have "Received_frame payload
      \<in> set (snd (handle_client accept_all started [Seg (size_data @ payload)]))"
    using single_message_accepted [OF run p ne] by simp
  moreover have "M < length payload" by (simp add: len)
  ultimately show False using rej [OF _ p, of accept_all] by simp
qed

text \<open>
  C3, amended.  The only bound on the length is the field itself: a decoded length is
  below \<open>2 ^ 32\<close>, every length below \<open>2 ^ 32\<close> is the decoding of some field, and for
  any length the inner loop accumulates exactly that many bytes when the socket delivers
  them, and never more than that many.  The handler takes whatever length the field
  holds as the frame size and hands exactly that many bytes to the decoder.
\<close>

theorem length_bounded_only_by_field:
  "(unpack_u32 size_data = Some L \<longrightarrow> L < 2 ^ 32)
   \<and> (L < 2 ^ 32 \<longrightarrow> (\<exists>sd. pack_u32 L = Some sd \<and> unpack_u32 sd = Some L))
   \<and> (L \<le> length (sock_bytes sk) \<longrightarrow>
        recv_frame_data L [] sk = Some (take L (sock_bytes sk), drop_bytes L sk))
   \<and> (recv_frame_data L [] sk = Some (fd, sk') \<longrightarrow> length fd \<le> L)
   \<and> (running s \<and> recv 4 sk0 = Some (size_data, sk) \<and> unpack_u32 size_data = Some L
        \<and> L \<le> length (sock_bytes sk) \<longrightarrow>
        client_loop cv s sk0 =
          (case imdecode cv (take L (sock_bytes sk)) of
             Frame frame \<Rightarrow>
               emit (Received_frame frame)
                 (client_loop cv (s\<lparr>current_frame := Some frame\<rparr>) (drop_bytes L sk))
           | NoFrame \<Rightarrow> emit Failed_to_decode (client_loop cv s (drop_bytes L sk))
           | DecodeRaise \<Rightarrow> emit Frame_decoding_error (client_loop cv s (drop_bytes L sk))))"
proof (intro conjI impI)
  assume "unpack_u32 size_data = Some L"
  then show "L < 2 ^ 32" using unpack_u32_bound by simp
next
  assume "L < 2 ^ 32"
  then obtain sd where "pack_u32 L = Some sd" by (simp add: pack_u32_def)
  then show "\<exists>sd. pack_u32 L = Some sd \<and> unpack_u32 sd = Some L"
    using unpack_pack by blast
next
  assume "L \<le> length (sock_bytes sk)"
  then show "recv_frame_data L [] sk = Some (take L (sock_bytes sk), drop_bytes L sk)"
    using recv_frame_data_complete [of "[]" L sk] by simp
next
  assume "recv_frame_data L [] sk = Some (fd, sk')"
  then show "length fd \<le> L" using recv_frame_data_bounded by fastforce
next
  assume a: "running s \<and> recv 4 sk0 = Some (size_data, sk) \<and> unpack_u32 size_data = Some L
        \<and> L \<le> length (sock_bytes sk)"
  then show "client_loop cv s sk0 =
          (case imdecode cv (take L (sock_bytes sk)) of
             Frame frame \<Rightarrow>
               emit (Received_frame frame)
                 (client_loop cv (s\<lparr>current_frame := Some frame\<rparr>) (drop_bytes L sk))
           | NoFrame \<Rightarrow> emit Failed_to_decode (client_loop cv s (drop_bytes L sk))
           | DecodeRaise \<Rightarrow> emit Frame_decoding_error (client_loop cv s (drop_bytes L sk)))"
    using client_loop_message [of s sk0 size_data sk L cv] by blast
qed

theorem length_bounded_only_by_field_witness:
  "unpack_u32 [CHR 0x00, CHR 0x00, CHR 0x00, CHR 0x03] = Some 3
   \<and> (3 :: nat) < 2 ^ 32
   \<and> (\<exists>sd. pack_u32 3 = Some sd \<and> unpack_u32 sd = Some 3)
   \<and> (3::nat) \<le> length (sock_bytes [Seg ''ab'', Seg ''c''])
   \<and> recv_frame_data 3 [] [Seg ''ab'', Seg ''c''] = Some (''abc'', [])
   \<and> length ''abc'' \<le> (3::nat)
   \<and> running (started :: bytes server)
   \<and> recv 4 [Seg ([CHR 0x00, CHR 0x00, CHR 0x00, CHR 0x03] @ ''ab''), Seg ''c'']
       = Some ([CHR 0x00, CHR 0x00, CHR 0x00, CHR 0x03], [Seg ''ab'', Seg ''c''])
   \<and> client_loop accept_all started
         [Seg ([CHR 0x00, CHR 0x00, CHR 0x00, CHR 0x03] @ ''ab''), Seg ''c'']
       = (started\<lparr>current_frame := Some ''abc''\<rparr>, [Received_frame ''abc''], None)"
proof -
  let ?conn = "[Seg ([CHR 0x00, CHR 0x00, CHR 0x00, CHR 0x03] @ ''ab''), Seg ''c'']"
  let ?sk = "[Seg ''ab'', Seg ''c'']"
  have 1: "unpack_u32 [CHR 0x00, CHR 0x00, CHR 0x00, CHR 0x03] = Some 3" by simp
  have 2: "(3 :: nat) < 2 ^ 32" by simp
  have 3: "(3::nat) \<le> length (sock_bytes ?sk)" by simp
  have 4: "recv_frame_data 3 [] ?sk = Some (''abc'', [])"
    by (simp add: recv_frame_data.simps)
  have 5: "running (started :: bytes server)" by (simp add: started_def)
  have 6: "recv 4 ?conn = Some ([CHR 0x00, CHR 0x00, CHR 0x00, CHR 0x03], ?sk)" by simp
  have tk: "take 3 (sock_bytes ?sk) = ''abc''" by simp
  have dr: "drop_bytes 3 ?sk = []" by simp
  have dec: "imdecode accept_all ''abc'' = Frame ''abc''"
    by (simp add: accept_all_def sample_cv_def)
  note t = length_bounded_only_by_field [of "[CHR 0x00, CHR 0x00, CHR 0x00, CHR 0x03]" 3
      ?sk "''abc''" "[]" started ?conn accept_all]
  from t 1 have a: "(3 :: nat) < 2 ^ 32" by blast
  from t a have b: "\<exists>sd. pack_u32 3 = Some sd \<and> unpack_u32 sd = Some 3" by blast
  from t 4 have c: "length ''abc'' \<le> (3::nat)" by blast
  from t 1 3 5 6 have "client_loop accept_all started ?conn =
          (case imdecode accept_all (take 3 (sock_bytes ?sk)) of
             Frame frame \<Rightarrow>
               emit (Received_frame frame)
                 (client_loop accept_all (started\<lparr>current_frame := Some frame\<rparr>)
                    (drop_bytes 3 ?sk))
           | NoFrame \<Rightarrow> emit Failed_to_decode (client_loop accept_all started (drop_bytes 3 ?sk))
           | DecodeRaise \<Rightarrow>
               emit Frame_decoding_error (client_loop accept_all started (drop_bytes 3 ?sk)))"
    by blast
  then have d: "client_loop accept_all started ?conn
       = (started\<lparr>current_frame := Some ''abc''\<rparr>, [Received_frame ''abc''], None)"
    unfolding tk dr dec client_loop_closed by (simp add: emit_def)
  show ?thesis using 1 a b 3 4 c 5 6 d by blast
qed


section \<open>What a handler changes in the server\<close>

lemma emit_fst: "fst (emit l r) = fst r"
  by (cases r) (simp add: emit_def)

lemma emit_log: "fst (snd (emit l r)) = l # fst (snd r)"
  by (cases r) (simp add: emit_def)

lemma client_loop_frame_only:
  "\<exists>cf. fst (client_loop cv s sk) = s\<lparr>current_frame := cf\<rparr>
     \<and> (cf = current_frame s
        \<or> (\<exists>frame. cf = Some frame \<and> Received_frame frame \<in> set (fst (snd (client_loop cv s sk)))))"
proof (induction cv s sk rule: client_loop.induct)
  case (1 cv s sk)
  let ?P = "\<lambda>r s0. \<exists>cf. fst r = s0\<lparr>current_frame := cf\<rparr>
     \<and> (cf = current_frame s0
        \<or> (\<exists>frame. cf = Some frame \<and> Received_frame frame \<in> set (fst (snd r))))"
  have stop: "?P (s, [], e) s" for e :: "exn option"
    by (rule exI [of _ "current_frame s"]) simp
  have keep: "?P (emit l r) s" if "?P r s" for l r
    using that by (auto simp: emit_fst emit_log)
  have wrote: "?P (emit (Received_frame frame) r) s"
    if "?P r (s\<lparr>current_frame := Some frame\<rparr>)" for frame r
    using that by (auto simp: emit_fst emit_log)
  note unfold = client_loop.simps [of cv s sk]
  show ?case
  proof (cases "running s")
    case False
    with unfold stop show ?thesis by simp
  next
    case run: True
    show ?thesis
    proof (cases "recv 4 sk")
      case None
      with run unfold stop show ?thesis by simp
    next
      case (Some r1)
      obtain size_data sk1 where r1: "r1 = (size_data, sk1)" by (cases r1)
      show ?thesis
      proof (cases "size_data = []")
        case True
        with run Some r1 unfold stop show ?thesis by simp
      next
        case ne: False
        show ?thesis
        proof (cases "unpack_u32 size_data")
          case None
          with run Some r1 ne unfold stop show ?thesis by simp
        next
          case u: (Some frame_size)
          show ?thesis
          proof (cases "recv_frame_data frame_size [] sk1")
            case None
            with run Some r1 ne u unfold stop show ?thesis by simp
          next
            case fd: (Some r2)
            obtain frame_data sk2 where r2: "r2 = (frame_data, sk2)" by (cases r2)
            from run have nn: "\<not> \<not> running s" by simp
            note ctx = nn Some r1 [symmetric] ne u fd r2 [symmetric]
            show ?thesis
            proof (cases "length frame_data = frame_size")
              case False
              have "?P (client_loop cv s sk2) s"
                by (rule "1.IH"(4) [OF ctx False])
              then have "?P (emit Incomplete_frame (client_loop cv s sk2)) s" by (rule keep)
              with run Some r1 ne u fd r2 False unfold show ?thesis by simp
            next
              case full: True
              show ?thesis
              proof (cases "imdecode cv frame_data")
                case (Frame frame)
                have "?P (client_loop cv (s\<lparr>current_frame := Some frame\<rparr>) sk2)
                        (s\<lparr>current_frame := Some frame\<rparr>)"
                  by (rule "1.IH"(1) [OF ctx full Frame])
                then have "?P (emit (Received_frame frame)
                    (client_loop cv (s\<lparr>current_frame := Some frame\<rparr>) sk2)) s"
                  by (rule wrote)
                with run Some r1 ne u fd r2 full Frame unfold show ?thesis by simp
              next
                case NoFrame
                have "?P (client_loop cv s sk2) s"
                  by (rule "1.IH"(2) [OF ctx full NoFrame])
                then have "?P (emit Failed_to_decode (client_loop cv s sk2)) s" by (rule keep)
                with run Some r1 ne u fd r2 full NoFrame unfold show ?thesis by simp
              next
                case DecodeRaise
                have "?P (client_loop cv s sk2) s"
                  by (rule "1.IH"(3) [OF ctx full DecodeRaise])
                then have "?P (emit Frame_decoding_error (client_loop cv s sk2)) s"
                  by (rule keep)
                with run Some r1 ne u fd r2 full DecodeRaise unfold show ?thesis by simp
              qed
            qed
          qed
        qed
      qed
    qed
  qed
qed


lemma client_loop_last_received:
  "fst (client_loop cv s sk)
     = s\<lparr>current_frame := last_received (fst (snd (client_loop cv s sk))) (current_frame s)\<rparr>"
proof (induction cv s sk rule: client_loop.induct)
  case (1 cv s sk)
  let ?P = "\<lambda>r s0. fst r = s0\<lparr>current_frame := last_received (fst (snd r)) (current_frame s0)\<rparr>"
  have stop: "?P (s, [], e) s" for e :: "exn option" by simp
  have keep: "?P (emit l r) s" if "?P r s" and "\<forall>frame. l \<noteq> Received_frame frame" for l r
    using that by (cases l) (simp_all add: emit_fst emit_log)
  have wrote: "?P (emit (Received_frame frame) r) s"
    if "?P r (s\<lparr>current_frame := Some frame\<rparr>)" for frame r
    using that by (simp add: emit_fst emit_log)
  note unfold = client_loop.simps [of cv s sk]
  show ?case
  proof (cases "running s")
    case False
    with unfold stop show ?thesis by simp
  next
    case run: True
    show ?thesis
    proof (cases "recv 4 sk")
      case None
      with run unfold stop show ?thesis by simp
    next
      case (Some r1)
      obtain size_data sk1 where r1: "r1 = (size_data, sk1)" by (cases r1)
      show ?thesis
      proof (cases "size_data = []")
        case True
        with run Some r1 unfold stop show ?thesis by simp
      next
        case ne: False
        show ?thesis
        proof (cases "unpack_u32 size_data")
          case None
          with run Some r1 ne unfold stop show ?thesis by simp
        next
          case u: (Some frame_size)
          show ?thesis
          proof (cases "recv_frame_data frame_size [] sk1")
            case None
            with run Some r1 ne u unfold stop show ?thesis by simp
          next
            case fd: (Some r2)
            obtain frame_data sk2 where r2: "r2 = (frame_data, sk2)" by (cases r2)
            from run have nn: "\<not> \<not> running s" by simp
            note ctx = nn Some r1 [symmetric] ne u fd r2 [symmetric]
            show ?thesis
            proof (cases "length frame_data = frame_size")
              case False
              have "?P (client_loop cv s sk2) s"
                by (rule "1.IH"(4) [OF ctx False])
              then have "?P (emit Incomplete_frame (client_loop cv s sk2)) s"
                by (rule keep) simp
              with run Some r1 ne u fd r2 False unfold show ?thesis by simp
            next
              case full: True
              show ?thesis
              proof (cases "imdecode cv frame_data")
                case (Frame frame)
                have "?P (client_loop cv (s\<lparr>current_frame := Some frame\<rparr>) sk2)
                        (s\<lparr>current_frame := Some frame\<rparr>)"
                  by (rule "1.IH"(1) [OF ctx full Frame])
                then have "?P (emit (Received_frame frame)
                    (client_loop cv (s\<lparr>current_frame := Some frame\<rparr>) sk2)) s"
                  by (rule wrote)
                with run Some r1 ne u fd r2 full Frame unfold show ?thesis by simp
              next
                case NoFrame
                have "?P (client_loop cv s sk2) s"
                  by (rule "1.IH"(2) [OF ctx full NoFrame])
                then have "?P (emit Failed_to_decode (client_loop cv s sk2)) s"
                  by (rule keep) simp
                with run Some r1 ne u fd r2 full NoFrame unfold show ?thesis by simp
              next
                case DecodeRaise
                have "?P (client_loop cv s sk2) s"
                  by (rule "1.IH"(3) [OF ctx full DecodeRaise])
                then have "?P (emit Frame_decoding_error (client_loop cv s sk2)) s"
                  by (rule keep) simp
                with run Some r1 ne u fd r2 full DecodeRaise unfold show ?thesis by simp
              qed
            qed
          qed
        qed
      qed
    qed
  qed
qed

text \<open>
  C2, as stated, fails.  The server keeps no sequence number, and none can be read off
  its state: a handler whose connection delivers nothing clears a store that is already
  empty and returns the state it started from, so no quantity of the state has grown.
\<close>

theorem sequence_number_counterexample:
  "\<not> (\<exists>seq :: bytes server \<Rightarrow> nat.
        \<forall>s sk. seq s < seq (fst (handle_client sample_cv s sk)))"
proof
  assume "\<exists>seq :: bytes server \<Rightarrow> nat.
        \<forall>s sk. seq s < seq (fst (handle_client sample_cv s sk))"
  then obtain seq :: "bytes server \<Rightarrow> nat" where
    "seq started < seq (fst (handle_client sample_cv started []))" by blast
  moreover have "fst (handle_client sample_cv started []) = (started :: bytes server)"
    by (simp add: handle_client_def client_loop_closed started_def VideoServer_init_def)
  ultimately show False by simp
qed

text \<open>
  C2, amended.  The only field a handler changes is \<open>current_frame\<close>.  A complete
  message that decodes makes the loop go on with the decoded frame in the store; when the
  loop ends the store holds the frame of the last received-frame line, or its old value
  when there is none; when the handler returns, the server is the one it started with,
  holding no frame, so a handler that received nothing leaves an empty store as it was.
\<close>

theorem store_is_only_current_frame:
  "fst (handle_client cv s sk) = s\<lparr>current_frame := None\<rparr>
   \<and> fst (client_loop cv s sk)
       = s\<lparr>current_frame :=
            last_received (fst (snd (client_loop cv s sk))) (current_frame s)\<rparr>
   \<and> (\<exists>cf. fst (client_loop cv s sk) = s\<lparr>current_frame := cf\<rparr>
        \<and> (cf = current_frame s
           \<or> (\<exists>frame. cf = Some frame
                \<and> Received_frame frame \<in> set (fst (snd (client_loop cv s sk))))))
   \<and> (running s \<and> recv 4 sk = Some (size_data, sk1)
        \<and> unpack_u32 size_data = Some (length payload)
        \<and> sock_bytes sk1 = payload @ later \<and> imdecode cv payload = Frame frame \<longrightarrow>
        client_loop cv s sk
          = emit (Received_frame frame)
              (client_loop cv (s\<lparr>current_frame := Some frame\<rparr>)
                 (drop_bytes (length payload) sk1)))
   \<and> (current_frame s = None \<longrightarrow> handle_client cv s [] = (s, [Client_disconnected]))"
proof (intro conjI impI)
  from client_loop_frame_only [of cv s sk]
  obtain cf where "fst (client_loop cv s sk) = s\<lparr>current_frame := cf\<rparr>" by blast
  then show "fst (handle_client cv s sk) = s\<lparr>current_frame := None\<rparr>"
    by (cases "client_loop cv s sk") (simp add: handle_client_def)
next
  show "fst (client_loop cv s sk)
       = s\<lparr>current_frame :=
            last_received (fst (snd (client_loop cv s sk))) (current_frame s)\<rparr>"
    by (rule client_loop_last_received)
next
  show "\<exists>cf. fst (client_loop cv s sk) = s\<lparr>current_frame := cf\<rparr>
        \<and> (cf = current_frame s
           \<or> (\<exists>frame. cf = Some frame
                \<and> Received_frame frame \<in> set (fst (snd (client_loop cv s sk)))))"
    by (rule client_loop_frame_only)
next
  assume a: "running s \<and> recv 4 sk = Some (size_data, sk1)
        \<and> unpack_u32 size_data = Some (length payload)
        \<and> sock_bytes sk1 = payload @ later \<and> imdecode cv payload = Frame frame"
  then have "length payload \<le> length (sock_bytes sk1)" by simp
  with a client_loop_message [of s sk size_data sk1 "length payload" cv]
  show "client_loop cv s sk
          = emit (Received_frame frame)
              (client_loop cv (s\<lparr>current_frame := Some frame\<rparr>)
                 (drop_bytes (length payload) sk1))"
    by simp
next
  assume "current_frame s = None"
  then have "s\<lparr>current_frame := None\<rparr> = s\<lparr>current_frame := current_frame s\<rparr>" by simp
  then show "handle_client cv s [] = (s, [Client_disconnected])"
    by (simp add: handle_client_def client_loop_closed)
qed

theorem store_is_only_current_frame_witness:
  "running (started :: bytes server)
   \<and> recv 4 [Seg [CHR 0x00, CHR 0x00, CHR 0x00, CHR 0x03, CHR 0xFF], Seg [CHR 0xD8, CHR ''x'']]
       = Some ([CHR 0x00, CHR 0x00, CHR 0x00, CHR 0x03], [Seg [CHR 0xFF], Seg [CHR 0xD8, CHR ''x'']])
   \<and> unpack_u32 [CHR 0x00, CHR 0x00, CHR 0x00, CHR 0x03] = Some (length ([CHR 0xFF, CHR 0xD8] @ ''x''))
   \<and> sock_bytes [Seg [CHR 0xFF], Seg [CHR 0xD8, CHR ''x'']] = ([CHR 0xFF, CHR 0xD8] @ ''x'') @ []
   \<and> imdecode sample_cv ([CHR 0xFF, CHR 0xD8] @ ''x'') = Frame ''x''
   \<and> current_frame (started :: bytes server) = None
   \<and> client_loop sample_cv started
         [Seg [CHR 0x00, CHR 0x00, CHR 0x00, CHR 0x03, CHR 0xFF], Seg [CHR 0xD8, CHR ''x'']]
       = (started\<lparr>current_frame := Some ''x''\<rparr>, [Received_frame ''x''], None)
   \<and> last_received [Received_frame ''x''] (current_frame (started :: bytes server)) = Some ''x''
   \<and> handle_client sample_cv started [] = (started, [Client_disconnected])
   \<and> fst (handle_client sample_cv started
         [Seg [CHR 0x00, CHR 0x00, CHR 0x00, CHR 0x03, CHR 0xFF], Seg [CHR 0xD8, CHR ''x'']])
       = started"
proof -
  let ?sk = "[Seg [CHR 0x00, CHR 0x00, CHR 0x00, CHR 0x03, CHR 0xFF], Seg [CHR 0xD8, CHR ''x'']]"
  let ?sk1 = "[Seg [CHR 0xFF], Seg [CHR 0xD8, CHR ''x'']]"
  have 1: "running (started :: bytes server)" by (simp add: started_def)
  have 2: "recv 4 ?sk = Some ([CHR 0x00, CHR 0x00, CHR 0x00, CHR 0x03], ?sk1)" by simp
  have 3: "unpack_u32 [CHR 0x00, CHR 0x00, CHR 0x00, CHR 0x03]
      = Some (length ([CHR 0xFF, CHR 0xD8] @ ''x''))" by simp
  have 4: "sock_bytes ?sk1 = ([CHR 0xFF, CHR 0xD8] @ ''x'') @ []" by simp
  have 5: "imdecode sample_cv ([CHR 0xFF, CHR 0xD8] @ ''x'') = Frame ''x''"
    by (simp add: sample_cv_def)
  have 6: "current_frame (started :: bytes server) = None"
    by (simp add: started_def VideoServer_init_def)
  have rest: "drop_bytes (length ([CHR 0xFF, CHR 0xD8] @ ''x'')) ?sk1 = []" by simp
  have none: "(started :: bytes server)\<lparr>current_frame := None\<rparr> = started"
    by (simp add: started_def VideoServer_init_def)
  note t = store_is_only_current_frame [of sample_cv started ?sk
      "[CHR 0x00, CHR 0x00, CHR 0x00, CHR 0x03]" ?sk1 "[CHR 0xFF, CHR 0xD8] @ ''x''" "[]" "''x''"]
  from t 1 2 3 4 5 have loop: "client_loop sample_cv started ?sk
      = emit (Received_frame ''x'')
          (client_loop sample_cv (started\<lparr>current_frame := Some ''x''\<rparr>)
             (drop_bytes (length ([CHR 0xFF, CHR 0xD8] @ ''x'')) ?sk1))"
    by blast
  have loop': "client_loop sample_cv started ?sk
      = (started\<lparr>current_frame := Some ''x''\<rparr>, [Received_frame ''x''], None)"
    unfolding loop rest client_loop_closed by (simp add: emit_def)
  from t 6 have empty: "handle_client sample_cv started [] = (started, [Client_disconnected])"
    by blast
  from t have "fst (handle_client sample_cv started ?sk) = started\<lparr>current_frame := None\<rparr>"
    by blast
  then have fin: "fst (handle_client sample_cv started ?sk) = started" by (simp only: none)
  show ?thesis using 1 2 3 4 5 6 loop' empty fin by simp
qed

section \<open>Accesses under the lock\<close>

text \<open>
  Threads that are all guarded exclude each other: whenever one of them reads or writes
  \<open>current_frame\<close>, it owns the lock.
\<close>

lemma guarded_threads_exclusive:
  assumes "\<forall>t < length threads. guarded (owner sh = Some t) (threads ! t)"
  shows "\<forall>e \<in> set (run schedule threads sh).
           is_access (fst (snd e)) \<longrightarrow> snd (snd e) = Some (fst e)"
  using assms
proof (induction schedule arbitrary: threads sh)
  case Nil
  then show ?case by simp
next
  case (Cons t schedule)
  note inv = Cons.prems
  show ?case
  proof (cases "t < length threads")
    case False
    with Cons.IH [OF inv] show ?thesis by simp
  next
    case t: True
    show ?thesis
    proof (cases "threads ! t")
      case Nil
      with t Cons.IH [OF inv] show ?thesis by simp
    next
      case (Cons st rest)
      from inv t Cons have g: "guarded (owner sh = Some t) (st # rest)" by auto
      show ?thesis
      proof (cases "do_step t st sh")
        case None
        with t Cons Cons.IH [OF inv] show ?thesis by simp
      next
        case (Some sh')
        have inv': "\<forall>u < length (threads[t := rest]).
            guarded (owner sh' = Some u) (threads[t := rest] ! u)"
        proof (intro allI impI)
          fix u assume u: "u < length (threads[t := rest])"
          then have ul: "u < length threads" by simp
          from inv ul have gu: "guarded (owner sh = Some u) (threads ! u)" by simp
          show "guarded (owner sh' = Some u) (threads[t := rest] ! u)"
          proof (cases st)
            case Acquire
            with Some have free: "owner sh = None" and sh': "sh' = sh\<lparr>owner := Some t\<rparr>"
              by (auto split: if_splits)
            show ?thesis
            proof (cases "u = t")
              case True
              with g Acquire t sh' show ?thesis by simp
            next
              case False
              with gu free sh' show ?thesis by auto
            qed
          next
            case Release
            with Some have sh': "sh' = sh\<lparr>owner := None\<rparr>" by simp
            from g Release have held: "owner sh = Some t" and gr: "guarded False rest" by auto
            show ?thesis
            proof (cases "u = t")
              case True
              with gr t sh' show ?thesis by simp
            next
              case False
              with gu held sh' show ?thesis by auto
            qed
          next
            case Load
            with Some have sh': "sh' = sh" by simp
            from g Load have "guarded (owner sh = Some t) rest" by auto
            with gu t sh' show ?thesis by (cases "u = t") auto
          next
            case (Store frame)
            with Some have sh': "owner sh' = owner sh" by auto
            from g Store have "guarded (owner sh = Some t) rest" by auto
            with gu t sh' show ?thesis by (cases "u = t") auto
          next
            case Clear
            with Some have sh': "owner sh' = owner sh" by auto
            from g Clear have "guarded (owner sh = Some t) rest" by auto
            with gu t sh' show ?thesis by (cases "u = t") auto
          qed
        qed
        have here: "is_access st \<longrightarrow> owner sh = Some t"
          using g by (cases st) auto
        from t Cons Some have "run (t # schedule) threads sh
            = (t, st, owner sh) # run schedule (threads[t := rest]) sh'" by simp
        with here Cons.IH [OF inv'] show ?thesis by simp
      qed
    qed
  qed
qed

text \<open>
  C9.  The write and the clear of \<open>handle_client\<close> and the reads of \<open>generate\<close> are
  guarded by \<open>frame_lock\<close>; the read of \<open>status\<close> is not.  In the schedule shown, a
  viewer's \<open>generate\<close> takes the lock, and \<open>status\<close> reads \<open>current_frame\<close> while the
  lock is owned by that other thread.
\<close>

theorem status_reads_without_lock:
  "guarded False (write_steps frame) \<and> guarded False (clear_steps :: 'f step list)
   \<and> guarded False (generate_steps True :: 'f step list)
   \<and> guarded False (generate_steps False :: 'f step list)
   \<and> \<not> guarded False (status_steps :: 'f step list)
   \<and> run [0, 1, 0, 0] [generate_steps False, status_steps]
         (\<lparr>owner = None, cell = None\<rparr> :: 'f shared)
       = [(0, Acquire, None), (1, Load, Some 0), (0, Load, Some 0), (0, Release, Some 0)]"
  by (simp add: write_steps_def clear_steps_def generate_steps_def status_steps_def)

end
